theory Spec2Isabelle
  imports Main "HOL-Library.Sublist" "HOL-Library.AList"
begin

section \<open>Strings as the script uses them\<close>

text \<open>
  The script \<^verbatim>\<open>act-biso_labels.py\<close> works on Python \<^verbatim>\<open>str\<close> values. A \<^typ>\<open>string\<close> here is
  the list of the code points of such a value, each below 256; the character classes below are
  Python's on that range.
\<close>

definition LF :: char where
  "LF = CHR 0x0A"

definition CR :: char where
  "CR = CHR 0x0D"

definition DQ :: char where
  "DQ = CHR 0x22"

text \<open>\<^verbatim>\<open>str.isspace\<close> and the regular expression class \<^verbatim>\<open>\s\<close> on one character.\<close>

definition isspace :: "char \<Rightarrow> bool" where
  "isspace c = ((of_char c :: nat) \<in> {9, 10, 11, 12, 13, 28, 29, 30, 31, 32, 133, 160})"

text \<open>The class \<^verbatim>\<open>[a-zA-Z0-9_-]\<close>.\<close>

definition is_key_char :: "char \<Rightarrow> bool" where
  "is_key_char c =
     (let n = (of_char c :: nat)
      in (97 \<le> n \<and> n \<le> 122) \<or> (65 \<le> n \<and> n \<le> 90) \<or> (48 \<le> n \<and> n \<le> 57) \<or> n = 95 \<or> n = 45)"

text \<open>\<^verbatim>\<open>s.strip()\<close>: whitespace removed at both ends.\<close>

definition strip :: "string \<Rightarrow> string" where
  "strip s = rev (dropWhile isspace (rev (dropWhile isspace s)))"

text \<open>\<^verbatim>\<open>sub in s\<close>: \<open>sub\<close> occurs in \<open>s\<close> as a contiguous run.\<close>

fun str_in :: "string \<Rightarrow> string \<Rightarrow> bool" where
  "str_in sub [] = (sub = [])"
| "str_in sub (c # cs) = (prefix sub (c # cs) \<or> str_in sub cs)"

text \<open>
  \<^verbatim>\<open>s.replace(old, new)\<close> for a non-empty \<open>old\<close>: the occurrences of \<open>old\<close> are replaced from
  the left, and the scan goes on after each replaced occurrence. (The script only calls it with
  a non-empty literal.)
\<close>

function str_replace :: "string \<Rightarrow> string \<Rightarrow> string \<Rightarrow> string" where
  "str_replace old new [] = []"
| "str_replace old new (c # cs) =
     (if old \<noteq> [] \<and> prefix old (c # cs)
      then new @ str_replace old new (drop (length old) (c # cs))
      else c # str_replace old new cs)"
  by pat_completeness auto
termination
  by (relation "measure (\<lambda>(old, new, s). length s)") auto

section \<open>The contact identifier formatter\<close>

text \<open>
  \<^verbatim>\<open>
  def format_email_for_label(email: str) -> str:
      return email.replace("@teco.com.ar", "-teco_com_ar")
  \<close>
\<close>

definition format_email_for_label :: "string \<Rightarrow> string" where
  "format_email_for_label email = str_replace ''@teco.com.ar'' ''-teco_com_ar'' email"

section \<open>The lookup loader\<close>

definition PROJECT_NAME_COL :: string where
  "PROJECT_NAME_COL = ''PROJECT_NAME''"

definition EMAIL_COL :: string where
  "EMAIL_COL = ''BISO_TEAM''"

text \<open>
  \<^verbatim>\<open>load_project_data\<close> returns \<^verbatim>\<open>None\<close> on three paths, each with its own message: the path
  is not a file, a required column is missing, and the \<^verbatim>\<open>except Exception\<close> handler.
\<close>

datatype error = PathError | SchemaError | ReadError

text \<open>
  The lookup file as \<^verbatim>\<open>csv.reader(infile, delimiter=';')\<close> presents it: the rows in order, each
  a list of fields (a blank line is the row \<open>[]\<close>). \<open>Missing\<close> is a path that is not a file,
  \<open>Unreadable\<close> a file whose opening, decoding or parsing raises.
\<close>

datatype csv_file = Missing | Unreadable | Rows "string list list"

text \<open>
  A Python \<^verbatim>\<open>dict\<close> with string keys, as an association list in insertion order;
  \<^const>\<open>AList.update\<close> is \<^verbatim>\<open>d[k] = v\<close> and \<^const>\<open>map_of\<close> the lookup.
\<close>

type_synonym 'v py_dict = "(string \<times> 'v) list"

text \<open>
  One row of \<^verbatim>\<open>csv.DictReader\<close>: \<^verbatim>\<open>d = dict(zip(self.fieldnames, row))\<close>, then every field name
  beyond the row's length gets \<^verbatim>\<open>restval\<close>, which is \<^verbatim>\<open>None\<close>. (Surplus fields go under the key
  \<^verbatim>\<open>None\<close>, which no lookup by column name reaches.)
\<close>

definition dict_row :: "string list \<Rightarrow> string list \<Rightarrow> string option py_dict" where
  "dict_row fieldnames row =
     fold (\<lambda>key. AList.update key None) (drop (length row) fieldnames)
       (fold (\<lambda>(key, v). AList.update key (Some v)) (zip fieldnames row) [])"

text \<open>
  \<^verbatim>\<open>row[col].strip()\<close>: a \<^verbatim>\<open>KeyError\<close> where the key is absent and an \<^verbatim>\<open>AttributeError\<close> where the
  value is \<^verbatim>\<open>None\<close>; both end in the handler of \<^verbatim>\<open>load_project_data\<close>.
\<close>

definition stripped_cell :: "string option py_dict \<Rightarrow> string \<Rightarrow> error + string" where
  "stripped_cell d col =
     (case map_of d col of
        None \<Rightarrow> Inl ReadError
      | Some None \<Rightarrow> Inl ReadError
      | Some (Some v) \<Rightarrow> Inr (strip v))"

text \<open>
  The loop \<^verbatim>\<open>for row in reader:\<close>. \<^verbatim>\<open>DictReader\<close> passes over the rows that are \<open>[]\<close>.
  \<^verbatim>\<open>
  project_name = row[PROJECT_NAME_COL].strip()
  email = row[EMAIL_COL].strip()
  if project_name and email:
      project_data[project_name] = email
  \<close>
\<close>

fun load_rows :: "string list \<Rightarrow> string list list \<Rightarrow> string py_dict \<Rightarrow> error + string py_dict" where
  "load_rows fieldnames [] project_data = Inr project_data"
| "load_rows fieldnames (row # rows) project_data =
     (if row = [] then load_rows fieldnames rows project_data
      else
        (case stripped_cell (dict_row fieldnames row) PROJECT_NAME_COL of
           Inl e \<Rightarrow> Inl e
         | Inr project_name \<Rightarrow>
             (case stripped_cell (dict_row fieldnames row) EMAIL_COL of
                Inl e \<Rightarrow> Inl e
              | Inr email \<Rightarrow>
                  (if project_name \<noteq> [] \<and> email \<noteq> []
                   then load_rows fieldnames rows (AList.update project_name email project_data)
                   else load_rows fieldnames rows project_data))))"

text \<open>
  \<^verbatim>\<open>reader.fieldnames\<close> is the first row, or \<^verbatim>\<open>None\<close> when there is none; then the membership
  test raises a \<^verbatim>\<open>TypeError\<close>, which the handler catches.
\<close>

definition load_project_data :: "csv_file \<Rightarrow> error + string py_dict" where
  "load_project_data csv =
     (case csv of
        Missing \<Rightarrow> Inl PathError
      | Unreadable \<Rightarrow> Inl ReadError
      | Rows [] \<Rightarrow> Inl ReadError
      | Rows (fieldnames # rows) \<Rightarrow>
          (if PROJECT_NAME_COL \<notin> set fieldnames \<or> EMAIL_COL \<notin> set fieldnames
           then Inl SchemaError
           else load_rows fieldnames rows []))"

section \<open>Text files\<close>

text \<open>
  Both \<^verbatim>\<open>open(file_path, 'r', encoding='utf-8')\<close> and \<^verbatim>\<open>Path.read_text\<close> read in text mode with
  the default \<^verbatim>\<open>newline=None\<close>: a \<^verbatim>\<open>\r\n\<close> and a \<^verbatim>\<open>\r\<close> alone are both handed over as \<^verbatim>\<open>\n\<close>. The
  flag says that the character before was a \<^verbatim>\<open>\r\<close>.
\<close>

fun universal_newlines :: "bool \<Rightarrow> string \<Rightarrow> string" where
  "universal_newlines pending_cr [] = []"
| "universal_newlines pending_cr (c # cs) =
     (if c = CR then LF # universal_newlines True cs
      else if c = LF \<and> pending_cr then universal_newlines False cs
      else c # universal_newlines False cs)"

definition read_text :: "string \<Rightarrow> string" where
  "read_text content = universal_newlines False content"

text \<open>\<^verbatim>\<open>f.readlines()\<close>: the text cut after every \<^verbatim>\<open>\n\<close>, each line keeping its \<^verbatim>\<open>\n\<close>.\<close>

fun readlines :: "string \<Rightarrow> string list" where
  "readlines [] = []"
| "readlines (c # cs) =
     (if c = LF then [c] # readlines cs
      else (case readlines cs of [] \<Rightarrow> [[c]] | l # ls \<Rightarrow> (c # l) # ls))"

text \<open>
  Writing in text mode (\<^verbatim>\<open>open(file_path, 'w', encoding='utf-8')\<close>, \<^verbatim>\<open>newline=None\<close>): every \<^verbatim>\<open>\n\<close>
  is written as \<^verbatim>\<open>os.linesep\<close>, the first parameter.
\<close>

definition write_text :: "string \<Rightarrow> string \<Rightarrow> string" where
  "write_text linesep text = concat (map (\<lambda>c. if c = LF then linesep else [c]) text)"

section \<open>The block editor\<close>

text \<open>
  \<^verbatim>\<open>last_label_pattern.match(line)\<close> for \<^verbatim>\<open>^\s*([a-zA-Z0-9_-]+)\s*=\s*".*"\<close>. The classes that follow
  each other are disjoint, so the match is decided from left to right; \<^verbatim>\<open>.*"\<close> asks for a
  double quote before the next \<^verbatim>\<open>\n\<close>.
\<close>

definition last_label_pattern :: "string \<Rightarrow> bool" where
  "last_label_pattern line =
     (let after_indent = dropWhile isspace line;
          key = takeWhile is_key_char after_indent;
          after_key = dropWhile isspace (dropWhile is_key_char after_indent)
      in key \<noteq> [] \<and>
         (case after_key of
            [] \<Rightarrow> False
          | c # after_eq \<Rightarrow>
              c = CHR ''='' \<and>
              (case dropWhile isspace after_eq of
                 [] \<Rightarrow> False
               | d # val \<Rightarrow> d = DQ \<and> DQ \<in> set (takeWhile (\<lambda>x. x \<noteq> LF) val))))"

text \<open>
  The search for the indentation, over the indices \<^verbatim>\<open>range(i - 1, 0, -1)\<close>:
  \<^verbatim>\<open>
  indentation = "    "
  for j in range(i - 1, 0, -1):
      if last_label_pattern.match(lines[j]):
          match = re.match(r'^(\s+)', lines[j])
          if match:
              indentation = match.group(1)
          break
  \<close>
  Every index of that range is below \<open>i\<close>, so \<open>lines ! j\<close> is a line of the file.
\<close>

fun find_indentation :: "string list \<Rightarrow> nat list \<Rightarrow> string" where
  "find_indentation lines [] = ''    ''"
| "find_indentation lines (j # js) =
     (if last_label_pattern (lines ! j)
      then (if takeWhile isspace (lines ! j) \<noteq> [] then takeWhile isspace (lines ! j) else ''    '')
      else find_indentation lines js)"

definition indentation_at :: "string list \<Rightarrow> nat \<Rightarrow> string" where
  "indentation_at lines i = find_indentation lines (rev [1..<i])"

text \<open>\<^verbatim>\<open>f'{indentation}biso_team                   = "{formatted_email}"\n'\<close>\<close>

definition biso_team_line :: "string \<Rightarrow> string \<Rightarrow> string" where
  "biso_team_line indentation formatted_email =
     indentation @ ''biso_team                   = '' @ [DQ] @ formatted_email @ [DQ, LF]"

text \<open>\<^verbatim>\<open>xs.insert(-1, x)\<close>: before the last element; into an empty list, as its only element.\<close>

definition insert_before_last :: "'a \<Rightarrow> 'a list \<Rightarrow> 'a list" where
  "insert_before_last x xs = (if xs = [] then [x] else butlast xs @ [x, last xs])"

record scan_state =
  new_lines :: "string list"
  in_labels_block :: bool
  labels_block_found :: bool

text \<open>The body of \<^verbatim>\<open>for i, line in enumerate(lines):\<close>, for an index \<open>i\<close> of the list.\<close>

definition scan_line :: "string list \<Rightarrow> string \<Rightarrow> nat \<Rightarrow> scan_state \<Rightarrow> scan_state" where
  "scan_line lines email_to_add i st =
     (let line = lines ! i;
          st1 = st\<lparr>new_lines := new_lines st @ [line]\<rparr>
      in if str_in ''labels = {'' line
         then st1\<lparr>in_labels_block := True, labels_block_found := True\<rparr>
         else if in_labels_block st1 \<and> strip line = ''}''
         then (let indentation = indentation_at lines i;
                   formatted_email = format_email_for_label email_to_add
               in st1\<lparr>new_lines :=
                         insert_before_last (biso_team_line indentation formatted_email)
                           (new_lines st1),
                       in_labels_block := False\<rparr>)
         else st1)"

definition scan_lines :: "string list \<Rightarrow> string \<Rightarrow> scan_state" where
  "scan_lines lines email_to_add =
     fold (scan_line lines email_to_add) [0..<length lines]
       \<lparr>new_lines = [], in_labels_block = False, labels_block_found = False\<rparr>"

text \<open>
  What \<^verbatim>\<open>update_terragrunt_file\<close> prints last: the success line, the warning that the block
  was not found, or the message of its \<^verbatim>\<open>except Exception\<close> handler.
\<close>

datatype edit_report = Updated | BlockNotFound | EditError

text \<open>
  A file is its content, or \<open>None\<close> where reading it raises. \<^verbatim>\<open>update_terragrunt_file\<close> returns
  nothing; its effect is the file's content afterwards, paired here with the report. (A write
  that fails half-way is outside this model: writes succeed.) The parameter \<open>project_name\<close>
  is unused, as in the script.
\<close>

definition update_terragrunt_file ::
    "string \<Rightarrow> string option \<Rightarrow> string \<Rightarrow> string \<Rightarrow> string option \<times> edit_report" where
  "update_terragrunt_file linesep file project_name email_to_add =
     (case file of
        None \<Rightarrow> (None, EditError)
      | Some content \<Rightarrow>
          (let lines = readlines (read_text content);
               st = scan_lines lines email_to_add
           in if \<not> labels_block_found st then (Some content, BlockNotFound)
              else (Some (write_text linesep (concat (new_lines st))), Updated)))"

section \<open>The directory walker\<close>

text \<open>
  \<^verbatim>\<open>project_name_pattern.search(content)\<close> for \<^verbatim>\<open>name\s*=\s*"([^"]+)"\<close>: the leftmost place where the
  pattern matches, and there the first group.
\<close>

definition match_project_name :: "string \<Rightarrow> string option" where
  "match_project_name s =
     (if prefix ''name'' s
      then (case dropWhile isspace (drop 4 s) of
              [] \<Rightarrow> None
            | c # after_eq \<Rightarrow>
                if c = CHR ''=''
                then (case dropWhile isspace after_eq of
                        [] \<Rightarrow> None
                      | d # val \<Rightarrow>
                          if d = DQ \<and> takeWhile (\<lambda>x. x \<noteq> DQ) val \<noteq> []
                               \<and> dropWhile (\<lambda>x. x \<noteq> DQ) val \<noteq> []
                          then Some (takeWhile (\<lambda>x. x \<noteq> DQ) val)
                          else None)
                else None)
      else None)"

fun search_project_name :: "string \<Rightarrow> string option" where
  "search_project_name [] = None"
| "search_project_name (c # cs) =
     (case match_project_name (c # cs) of
        Some name \<Rightarrow> Some name
      | None \<Rightarrow> search_project_name cs)"

record summary =
  files_processed :: nat
  files_modified :: nat

text \<open>A file the glob \<^verbatim>\<open>**/project/terragrunt.hcl\<close> finds: its path and its content.\<close>

type_synonym hcl_file = "string \<times> string option"

text \<open>
  The body of \<^verbatim>\<open>for hcl_path in iac_path.glob(...)\<close>: the file afterwards and the counters
  afterwards. A file that cannot be read ends in the handler, after \<^verbatim>\<open>files_processed += 1\<close>.
\<close>

definition walk_file :: "string \<Rightarrow> string py_dict \<Rightarrow> hcl_file \<Rightarrow> summary \<Rightarrow> hcl_file \<times> summary" where
  "walk_file linesep project_data hcl s =
     (let s1 = s\<lparr>files_processed := files_processed s + 1\<rparr>
      in case snd hcl of
           None \<Rightarrow> (hcl, s1)
         | Some content \<Rightarrow>
             (case search_project_name (read_text content) of
                None \<Rightarrow> (hcl, s1)
              | Some current_project_name \<Rightarrow>
                  (case map_of project_data current_project_name of
                     None \<Rightarrow> (hcl, s1)
                   | Some email \<Rightarrow>
                       ((fst hcl,
                         fst (update_terragrunt_file linesep (snd hcl) current_project_name email)),
                        s1\<lparr>files_modified := files_modified s1 + 1\<rparr>))))"

fun walk_files :: "string \<Rightarrow> string py_dict \<Rightarrow> hcl_file list \<Rightarrow> summary \<Rightarrow> hcl_file list \<times> summary" where
  "walk_files linesep project_data [] s = ([], s)"
| "walk_files linesep project_data (hcl # rest) s =
     (let (hcl', s1) = walk_file linesep project_data hcl s;
          (rest', s2) = walk_files linesep project_data rest s1
      in (hcl' # rest', s2))"

text \<open>The root of the scan: not a directory, or the files the glob finds under it.\<close>

datatype iac = NotADirectory | Directory "hcl_file list"

text \<open>\<^verbatim>\<open>main\<close>: the tree afterwards, and the summary it prints when it gets that far.\<close>

definition main :: "string \<Rightarrow> iac \<Rightarrow> string py_dict \<Rightarrow> iac \<times> summary option" where
  "main linesep iac_path project_data =
     (case iac_path of
        NotADirectory \<Rightarrow> (NotADirectory, None)
      | Directory files \<Rightarrow>
          (let (files', s) =
                 walk_files linesep project_data files \<lparr>files_processed = 0, files_modified = 0\<rparr>
           in (Directory files', Some s)))"

text \<open>
  The script's last lines:
  \<^verbatim>\<open>
  project_info = load_project_data(csv_file_path)
  if project_info:
      main(iac_live_path, project_info)
  \<close>
  \<^verbatim>\<open>None\<close> and the empty dictionary are both false. \<open>walk_entered\<close> says whether \<^verbatim>\<open>main\<close> was
  called.
\<close>

record run =
  walk_entered :: bool
  tree_after :: iac
  report :: "summary option"

definition script :: "string \<Rightarrow> csv_file \<Rightarrow> iac \<Rightarrow> run" where
  "script linesep csv iac_live_path =
     (case load_project_data csv of
        Inl e \<Rightarrow> \<lparr>walk_entered = False, tree_after = iac_live_path, report = None\<rparr>
      | Inr project_info \<Rightarrow>
          (if project_info \<noteq> []
           then (let (t, r) = main linesep iac_live_path project_info
                 in \<lparr>walk_entered = True, tree_after = t, report = r\<rparr>)
           else \<lparr>walk_entered = False, tree_after = iac_live_path, report = None\<rparr>))"

section \<open>Notions for the statements about the editor\<close>

text \<open>
  A line opens the block when it contains \<^verbatim>\<open>labels = {\<close> and closes it when, stripped, it is
  \<^verbatim>\<open>}\<close>. \<open>armed ls n\<close> is the value of \<^verbatim>\<open>in_labels_block\<close> when the lines before index \<open>n\<close> have
  been handled; \<open>closing ls i\<close> says in words which closers are reached with the flag set: a
  closer with an opener before it and no closer in between. \<open>emit\<close> is what one line
  contributes to the output.
\<close>

definition opener :: "string \<Rightarrow> bool" where
  "opener line = str_in ''labels = {'' line"

definition closer :: "string \<Rightarrow> bool" where
  "closer line = (strip line = ''}'')"

primrec armed :: "string list \<Rightarrow> nat \<Rightarrow> bool" where
  "armed ls 0 = False"
| "armed ls (Suc n) =
     (if opener (ls ! n) then True
      else if armed ls n \<and> closer (ls ! n) then False
      else armed ls n)"

definition closing :: "string list \<Rightarrow> nat \<Rightarrow> bool" where
  "closing ls i =
     (closer (ls ! i) \<and> (\<exists>a<i. opener (ls ! a) \<and> (\<forall>k. a < k \<and> k < i \<longrightarrow> \<not> closer (ls ! k))))"

definition emit :: "string list \<Rightarrow> string \<Rightarrow> nat \<Rightarrow> string list" where
  "emit ls e i =
     (if closing ls i
      then [biso_team_line (indentation_at ls i) (format_email_for_label e), ls ! i]
      else [ls ! i])"

text \<open>
  A line that sets the key \<^verbatim>\<open>biso_team\<close>: after its indentation comes \<^verbatim>\<open>biso_team\<close>, then
  optional whitespace, then \<^verbatim>\<open>=\<close>.
\<close>

definition is_biso_team_line :: "string \<Rightarrow> bool" where
  "is_biso_team_line line =
     (let r = dropWhile isspace line
      in prefix ''biso_team'' r \<and>
         (case dropWhile isspace (drop 9 r) of [] \<Rightarrow> False | c # rest \<Rightarrow> c = CHR ''=''))"

definition count_biso_team :: "string list \<Rightarrow> nat" where
  "count_biso_team ls = length (filter is_biso_team_line ls)"

section \<open>Notions for the statements about the loader\<close>

text \<open>
  In the spec's words: a row supplies both columns when the reader gives it a string under
  each of the two column names, and its entry is the pair of the trimmed name and the trimmed
  contact when both are non-empty.
\<close>

definition supplies :: "string list \<Rightarrow> string list \<Rightarrow> bool" where
  "supplies fieldnames row =
     (case map_of (dict_row fieldnames row) PROJECT_NAME_COL of
        Some (Some n) \<Rightarrow>
          (case map_of (dict_row fieldnames row) EMAIL_COL of Some (Some c) \<Rightarrow> True | _ \<Rightarrow> False)
      | _ \<Rightarrow> False)"

definition row_entry :: "string list \<Rightarrow> string list \<Rightarrow> (string \<times> string) option" where
  "row_entry fieldnames row =
     (if row = [] then None
      else
        (case map_of (dict_row fieldnames row) PROJECT_NAME_COL of
           Some (Some n) \<Rightarrow>
             (case map_of (dict_row fieldnames row) EMAIL_COL of
                Some (Some c) \<Rightarrow>
                  if strip n \<noteq> [] \<and> strip c \<noteq> [] then Some (strip n, strip c) else None
              | _ \<Rightarrow> None)
         | _ \<Rightarrow> None))"

definition last_entry_for :: "string list \<Rightarrow> string list list \<Rightarrow> string \<Rightarrow> string \<Rightarrow> bool" where
  "last_entry_for fieldnames rows k v =
     (\<exists>pre row post. rows = pre @ row # post \<and> row_entry fieldnames row = Some (k, v)
        \<and> (\<forall>r \<in> set post. \<forall>v'. row_entry fieldnames r \<noteq> Some (k, v')))"

section \<open>Example files\<close>

text \<open>A file with two labels blocks.\<close>

definition two_blocks :: string where
  \<open>two_blocks = ''labels = {\<newline>}\<newline>labels = {\<newline>}\<newline>''\<close>

text \<open>A labels block whose last line before the closing line is a comment.\<close>

definition comment_before_closer :: "string list" where
  \<open>comment_before_closer = [''labels = {\<newline>'', ''  env = "prod"\<newline>'', ''# end\<newline>'', ''}\<newline>'']\<close>

text \<open>An empty labels block under a first line that has the form of a label.\<close>

definition label_on_first_line :: "string list" where
  \<open>label_on_first_line = [''  a = "b"\<newline>'', ''labels = {\<newline>'', ''}\<newline>'']\<close>

text \<open>A file the editor has been run on once.\<close>

definition labelled_once :: string where
  \<open>labelled_once = ''labels = {\<newline>    biso_team                   = "e"\<newline>}\<newline>''\<close>



section \<open>Properties of the string functions\<close>

lemma str_in_iff: "str_in sub s \<longleftrightarrow> (\<exists>p q. s = p @ sub @ q)"
proof (induction s)
  case Nil
  show ?case by auto
next
  case (Cons c cs)
  show ?case
  proof
    assume "str_in sub (c # cs)"
    then consider "prefix sub (c # cs)" | "str_in sub cs" by auto
    then show "\<exists>p q. c # cs = p @ sub @ q"
    proof cases
      case 1
      then obtain q where "c # cs = sub @ q" by (auto simp: prefix_def)
      then have "c # cs = [] @ sub @ q" by simp
      then show ?thesis by blast
    next
      case 2
      with Cons.IH obtain p q where "cs = p @ sub @ q" by blast
      then have "c # cs = (c # p) @ sub @ q" by simp
      then show ?thesis by blast
    qed
  next
    assume "\<exists>p q. c # cs = p @ sub @ q"
    then obtain p q where pq: "c # cs = p @ sub @ q" by blast
    show "str_in sub (c # cs)"
    proof (cases p)
      case Nil
      with pq have "prefix sub (c # cs)" by (simp add: prefix_def)
      then show ?thesis by simp
    next
      case (Cons a p')
      with pq have "cs = p' @ sub @ q" by simp
      with Cons.IH have "str_in sub cs" by blast
      then show ?thesis by simp
    qed
  qed
qed

lemma str_replace_absent:
  "\<not> str_in old s \<Longrightarrow> str_replace old new s = s"
  by (induction s) auto

lemma no_overlap:
  assumes "hd old \<notin> set (tl old)" and "old \<noteq> []" and "x \<noteq> []"
    and "prefix old (x @ old)"
  shows "length old \<le> length x"
proof (rule ccontr)
  assume "\<not> length old \<le> length x"
  then have k: "length x < length old" by simp
  from assms(4) obtain z where z: "x @ old = old @ z" by (auto simp: prefix_def)
  have "(x @ old) ! length x = old ! 0" by (simp add: nth_append)
  moreover have "(old @ z) ! length x = old ! length x" using k by (simp add: nth_append)
  ultimately have eq: "old ! length x = old ! 0" using z by simp
  from assms(3) obtain j where j: "length x = Suc j" by (cases x) auto
  from assms(2) obtain a t where old: "old = a # t" by (cases old) auto
  from eq j old have "t ! j = a" by simp
  moreover from k j old have "j < length t" by simp
  ultimately have "a \<in> set t" using nth_mem by blast
  with assms(1) old show False by simp
qed

lemma str_replace_suffix:
  assumes h: "hd old \<notin> set (tl old)" and ne: "old \<noteq> []"
  shows "str_replace old new (x @ old) = str_replace old new x @ new"
proof (induction x rule: length_induct)
  case (1 x)
  show ?case
  proof (cases x)
    case Nil
    from ne obtain a t where old: "old = a # t" by (cases old) auto
    have "str_replace old new (a # t) = new @ str_replace old new (drop (length old) (a # t))"
      using old by simp
    then show ?thesis using Nil old by simp
  next
    case (Cons c cs)
    show ?thesis
    proof (cases "prefix old x")
      case True
      then obtain r where r: "x = old @ r" by (auto simp: prefix_def)
      have shorter: "length r < length x" using r ne by simp
      have "prefix old (x @ old)" using True by (rule prefix_prefix)
      then have p2: "prefix old (c # cs @ old)" using Cons by simp
      have d2: "drop (length old) (c # cs @ old) = r @ old"
        using r Cons by (metis append_Cons append_assoc append_eq_conv_conj)
      have d1: "drop (length old) (c # cs) = r"
        using r Cons by (metis append_eq_conv_conj)
      have "str_replace old new (x @ old) = new @ str_replace old new (r @ old)"
        using p2 d2 ne Cons by simp
      also have "\<dots> = new @ str_replace old new r @ new"
        using 1 shorter by simp
      also have "\<dots> = str_replace old new x @ new"
        using True d1 ne Cons by simp
      finally show ?thesis .
    next
      case False
      have np: "\<not> prefix old (x @ old)"
      proof
        assume p: "prefix old (x @ old)"
        with Cons h ne have "length old \<le> length x" using no_overlap by blast
        with p have "prefix old x"
          using prefix_length_prefix [of old "x @ old" x] by simp
        with False show False by simp
      qed
      have "str_replace old new (x @ old) = c # str_replace old new (cs @ old)"
        using np Cons by simp
      also have "\<dots> = c # str_replace old new cs @ new"
        using 1 Cons by simp
      also have "\<dots> = str_replace old new x @ new"
        using False Cons by simp
      finally show ?thesis .
    qed
  qed
qed

lemma format_suffix:
  "format_email_for_label (x @ ''@teco.com.ar'') = format_email_for_label x @ ''-teco_com_ar''"
  unfolding format_email_for_label_def
  by (rule str_replace_suffix) simp_all

lemma no_overlap_within:
  assumes "hd old \<notin> set (tl old)" and "old \<noteq> []" and "x \<noteq> []"
    and "prefix old (x @ old @ q)"
  shows "length old \<le> length x"
proof (rule ccontr)
  assume "\<not> length old \<le> length x"
  then have k: "length x < length old" by simp
  from assms(4) obtain z where z: "x @ old @ q = old @ z" by (auto simp: prefix_def)
  from assms(2) obtain a t where old: "old = a # t" by (cases old) auto
  have "(x @ old @ q) ! length x = a" using old by (simp add: nth_append)
  moreover have "(old @ z) ! length x = old ! length x" using k by (simp add: nth_append)
  ultimately have eq: "old ! length x = a" using z by simp
  from assms(3) obtain j where j: "length x = Suc j" by (cases x) auto
  from eq j old have "t ! j = a" by simp
  moreover from k j old have "j < length t" by simp
  ultimately have "a \<in> set t" using nth_mem by blast
  with assms(1) old show False by simp
qed

lemma str_replace_first:
  assumes h: "hd old \<notin> set (tl old)" and ne: "old \<noteq> []"
  shows "\<not> str_in old p \<Longrightarrow>
         str_replace old new (p @ old @ q) = p @ new @ str_replace old new q"
proof (induction p)
  case Nil
  from ne obtain a t where old: "old = a # t" by (cases old) auto
  have "str_replace old new (a # t @ q)
          = new @ str_replace old new (drop (length old) (a # t @ q))"
    using old by simp
  moreover have "drop (length old) (a # t @ q) = q" using old by simp
  ultimately show ?case using old by simp
next
  case (Cons c p)
  from Cons.prems have np: "\<not> prefix old (c # p)" and ni: "\<not> str_in old p" by simp_all
  have "\<not> prefix old ((c # p) @ old @ q)"
  proof
    assume pr: "prefix old ((c # p) @ old @ q)"
    then have "length old \<le> length (c # p)"
      using no_overlap_within [OF h ne, of "c # p" q] by simp
    with pr have "prefix old (c # p)"
      using prefix_length_prefix [of old "(c # p) @ old @ q" "c # p"] by simp
    with np show False by simp
  qed
  then have "str_replace old new ((c # p) @ old @ q) = c # str_replace old new (p @ old @ q)"
    by simp
  with Cons.IH [OF ni] show ?case by simp
qed

lemma first_occurrence:
  assumes "sub \<noteq> []"
  shows "str_in sub s \<Longrightarrow> \<exists>p q. s = p @ sub @ q \<and> \<not> str_in sub p"
proof (induction s)
  case Nil
  with assms show ?case by simp
next
  case (Cons c cs)
  show ?case
  proof (cases "prefix sub (c # cs)")
    case True
    then obtain q where "c # cs = [] @ sub @ q" by (auto simp: prefix_def)
    moreover have "\<not> str_in sub []" using assms by simp
    ultimately show ?thesis by blast
  next
    case False
    with Cons.prems have "str_in sub cs" by simp
    with Cons.IH obtain p q where pq: "cs = p @ sub @ q" and n: "\<not> str_in sub p" by blast
    have "\<not> prefix sub (c # p)"
    proof
      assume "prefix sub (c # p)"
      then have "prefix sub ((c # p) @ sub @ q)" by (rule prefix_prefix)
      with pq False show False by simp
    qed
    with n have "\<not> str_in sub (c # p)" by simp
    moreover have "c # cs = (c # p) @ sub @ q" using pq by simp
    ultimately show ?thesis by blast
  qed
qed

lemma format_first:
  assumes "\<not> str_in ''@teco.com.ar'' p"
  shows "format_email_for_label (p @ ''@teco.com.ar'' @ q)
           = p @ ''-teco_com_ar'' @ format_email_for_label q"
  unfolding format_email_for_label_def
  using assms by (intro str_replace_first) simp_all

lemma format_changes:
  assumes "str_in ''@teco.com.ar'' s"
  shows "format_email_for_label s \<noteq> s"
proof -
  have ne: "''@teco.com.ar'' \<noteq> []" by simp
  from first_occurrence [OF ne assms] obtain p q
    where s: "s = p @ ''@teco.com.ar'' @ q" and n: "\<not> str_in ''@teco.com.ar'' p" by blast
  have "format_email_for_label s = p @ ''-teco_com_ar'' @ format_email_for_label q"
    unfolding s using n by (rule format_first)
  moreover have "p @ ''-teco_com_ar'' @ format_email_for_label q \<noteq> p @ ''@teco.com.ar'' @ q"
    by simp
  ultimately show ?thesis using s by simp
qed

section \<open>The scan, line by line\<close>

lemma in_dropWhile: "x \<in> set xs \<Longrightarrow> \<not> P x \<Longrightarrow> x \<in> set (dropWhile P xs)"
  by (induction xs) auto

lemma in_strip: "x \<in> set s \<Longrightarrow> \<not> isspace x \<Longrightarrow> x \<in> set (strip s)"
  unfolding strip_def by (simp add: in_dropWhile)

lemma closer_not_opener: "closer l \<Longrightarrow> \<not> opener l"
proof
  assume c: "closer l" and o: "opener l"
  from o obtain p q where "l = p @ ''labels = {'' @ q"
    unfolding opener_def str_in_iff by blast
  then have "CHR ''l'' \<in> set l" by simp
  moreover have "\<not> isspace (CHR ''l'')" by (simp add: isspace_def)
  ultimately have "CHR ''l'' \<in> set (strip l)" by (rule in_strip)
  with c show False by (simp add: closer_def)
qed

lemma armed_iff:
  "armed ls n \<longleftrightarrow> (\<exists>a<n. opener (ls ! a) \<and> (\<forall>k. a < k \<and> k < n \<longrightarrow> \<not> closer (ls ! k)))"
proof (induction n)
  case 0
  show ?case by simp
next
  case (Suc n)
  show ?case
  proof (cases "opener (ls ! n)")
    case True
    then have "armed ls (Suc n)" by simp
    moreover have "\<exists>a<Suc n. opener (ls ! a) \<and> (\<forall>k. a < k \<and> k < Suc n \<longrightarrow> \<not> closer (ls ! k))"
      using True by (intro exI [of _ n]) auto
    ultimately show ?thesis by blast
  next
    case False
    then have eq: "armed ls (Suc n) \<longleftrightarrow> armed ls n \<and> \<not> closer (ls ! n)" by auto
    have "(armed ls n \<and> \<not> closer (ls ! n)) \<longleftrightarrow>
          (\<exists>a<Suc n. opener (ls ! a) \<and> (\<forall>k. a < k \<and> k < Suc n \<longrightarrow> \<not> closer (ls ! k)))"
      (is "?L \<longleftrightarrow> ?R")
    proof
      assume ?L
      with Suc.IH obtain a where a: "a < n" "opener (ls ! a)"
        "\<forall>k. a < k \<and> k < n \<longrightarrow> \<not> closer (ls ! k)" by blast
      from \<open>?L\<close> a(3) have "\<forall>k. a < k \<and> k < Suc n \<longrightarrow> \<not> closer (ls ! k)"
        by (auto simp: less_Suc_eq)
      with a show ?R by (intro exI [of _ a]) auto
    next
      assume ?R
      then obtain a where a: "a < Suc n" "opener (ls ! a)"
        "\<forall>k. a < k \<and> k < Suc n \<longrightarrow> \<not> closer (ls ! k)" by blast
      from a(1,2) False have an: "a < n" by (cases "a = n") auto
      with a(3) have "\<not> closer (ls ! n)" by simp
      moreover from a an have "armed ls n" using Suc.IH by auto
      ultimately show ?L by simp
    qed
    with eq show ?thesis by simp
  qed
qed

lemma closing_armed: "closing ls i \<longleftrightarrow> closer (ls ! i) \<and> armed ls i"
  unfolding closing_def armed_iff by simp

lemma insert_before_last_snoc: "insert_before_last x (xs @ [l]) = xs @ [x, l]"
  by (simp add: insert_before_last_def)

lemma scan_line_step:
  "scan_line ls e i \<lparr>new_lines = nl, in_labels_block = armed ls i, labels_block_found = f\<rparr>
   = \<lparr>new_lines = nl @ emit ls e i, in_labels_block = armed ls (Suc i),
      labels_block_found = (f \<or> opener (ls ! i))\<rparr>"
proof (cases "opener (ls ! i)")
  case True
  then have "\<not> closing ls i" using closer_not_opener by (auto simp: closing_armed)
  with True show ?thesis
    by (simp add: scan_line_def emit_def opener_def [symmetric])
next
  case False
  show ?thesis
  proof (cases "closing ls i")
    case True
    with False show ?thesis
      by (simp add: scan_line_def emit_def opener_def [symmetric] closer_def [symmetric]
            closing_armed insert_before_last_snoc)
  next
    case nc: False
    with False show ?thesis
      by (auto simp add: scan_line_def emit_def opener_def [symmetric] closer_def [symmetric]
            closing_armed)
  qed
qed

lemma scan_prefix:
  "fold (scan_line ls e) [0..<n]
     \<lparr>new_lines = [], in_labels_block = False, labels_block_found = False\<rparr>
   = \<lparr>new_lines = concat (map (emit ls e) [0..<n]), in_labels_block = armed ls n,
      labels_block_found = (\<exists>a<n. opener (ls ! a))\<rparr>"
proof (induction n)
  case 0
  show ?case by simp
next
  case (Suc n)
  have "(\<exists>a<Suc n. opener (ls ! a)) \<longleftrightarrow> ((\<exists>a<n. opener (ls ! a)) \<or> opener (ls ! n))"
    by (auto simp: less_Suc_eq)
  with Suc show ?case by (simp add: scan_line_step)
qed

lemma scan_lines_eq:
  "scan_lines ls e =
     \<lparr>new_lines = concat (map (emit ls e) [0..<length ls]), in_labels_block = armed ls (length ls),
      labels_block_found = (\<exists>l\<in>set ls. opener l)\<rparr>"
proof -
  have "(\<exists>a<length ls. opener (ls ! a)) \<longleftrightarrow> (\<exists>l\<in>set ls. opener l)"
    by (metis in_set_conv_nth)
  then show ?thesis unfolding scan_lines_def scan_prefix by simp
qed

lemma find_indentation_none:
  "\<forall>j \<in> set js. \<not> last_label_pattern (ls ! j) \<Longrightarrow> find_indentation ls js = ''    ''"
  by (induction js) auto

lemma find_indentation_first:
  "\<forall>k \<in> set pre. \<not> last_label_pattern (ls ! k) \<Longrightarrow> last_label_pattern (ls ! j) \<Longrightarrow>
   find_indentation ls (pre @ j # post)
     = (if takeWhile isspace (ls ! j) \<noteq> [] then takeWhile isspace (ls ! j) else ''    '')"
  by (induction pre) auto

lemma rev_upt_split:
  assumes "1 \<le> j" and "j < i"
  shows "rev [1..<i] = rev [Suc j..<i] @ j # rev [1..<j]"
proof -
  have "[1..<j + (i - j)] = [1..<j] @ [j..<j + (i - j)]"
    using assms(1) by (rule upt_add_eq_append)
  moreover have "j + (i - j) = i" using assms(2) by simp
  ultimately have "[1..<i] = [1..<j] @ [j..<i]" by simp
  also have "[j..<i] = j # [Suc j..<i]" using assms(2) by (simp add: upt_conv_Cons)
  finally show ?thesis by simp
qed

lemma indentation_at_default:
  "\<forall>j. 1 \<le> j \<and> j < i \<longrightarrow> \<not> last_label_pattern (ls ! j) \<Longrightarrow> indentation_at ls i = ''    ''"
  unfolding indentation_at_def by (rule find_indentation_none) auto

lemma indentation_at_nearest:
  assumes "1 \<le> j" and "j < i" and "last_label_pattern (ls ! j)"
    and "\<forall>k. j < k \<and> k < i \<longrightarrow> \<not> last_label_pattern (ls ! k)"
  shows "indentation_at ls i
           = (if takeWhile isspace (ls ! j) \<noteq> [] then takeWhile isspace (ls ! j) else ''    '')"
proof -
  have "\<forall>k \<in> set (rev [Suc j..<i]). \<not> last_label_pattern (ls ! k)" using assms(4) by auto
  then show ?thesis
    unfolding indentation_at_def rev_upt_split [OF assms(1,2)]
    using assms(3) by (rule find_indentation_first)
qed

section \<open>The loader's loop\<close>

lemma load_rows_step:
  assumes "row \<noteq> [] \<longrightarrow> supplies fn row"
  shows "load_rows fn (row # rows) pd
           = load_rows fn rows (case row_entry fn row of None \<Rightarrow> pd
                                 | Some (k, v) \<Rightarrow> AList.update k v pd)"
proof (cases "row = []")
  case True
  then show ?thesis by (simp add: row_entry_def)
next
  case False
  with assms have "supplies fn row" by simp
  then obtain n c where "map_of (dict_row fn row) PROJECT_NAME_COL = Some (Some n)"
    "map_of (dict_row fn row) EMAIL_COL = Some (Some c)"
    by (auto simp: supplies_def split: option.splits)
  with False show ?thesis by (simp add: row_entry_def stripped_cell_def)
qed

lemma load_rows_append:
  "load_rows fn (xs @ ys) pd
     = (case load_rows fn xs pd of Inl e \<Rightarrow> Inl e | Inr m \<Rightarrow> load_rows fn ys m)"
  by (induction xs arbitrary: pd) (auto split: sum.splits)

lemma last_entry_for_snoc:
  "last_entry_for fn (rows @ [r]) k v
     \<longleftrightarrow> row_entry fn r = Some (k, v)
          \<or> ((\<forall>v'. row_entry fn r \<noteq> Some (k, v')) \<and> last_entry_for fn rows k v)"
  (is "?L \<longleftrightarrow> ?R")
proof
  assume ?L
  then obtain pre row post where d: "rows @ [r] = pre @ row # post"
    "row_entry fn row = Some (k, v)" "\<forall>x \<in> set post. \<forall>v'. row_entry fn x \<noteq> Some (k, v')"
    unfolding last_entry_for_def by blast
  show ?R
  proof (cases post rule: rev_cases)
    case Nil
    with d(1) have "r = row" by simp
    with d(2) show ?thesis by simp
  next
    case (snoc post' x)
    with d(1) have "rows @ [r] = (pre @ row # post') @ [x]" by simp
    then have rows: "rows = pre @ row # post'" and x: "x = r" by simp_all
    from d(3) snoc x have "\<forall>v'. row_entry fn r \<noteq> Some (k, v')" by simp
    moreover from d(3) snoc have "\<forall>y \<in> set post'. \<forall>v'. row_entry fn y \<noteq> Some (k, v')" by simp
    with rows d(2) have "last_entry_for fn rows k v" unfolding last_entry_for_def by blast
    ultimately show ?thesis by simp
  qed
next
  assume ?R
  then consider "row_entry fn r = Some (k, v)"
    | "\<forall>v'. row_entry fn r \<noteq> Some (k, v')" "last_entry_for fn rows k v" by blast
  then show ?L
  proof cases
    case 1
    have "rows @ [r] = rows @ r # []" by simp
    with 1 show ?thesis unfolding last_entry_for_def by fastforce
  next
    case 2
    from 2(2) obtain pre row post where d: "rows = pre @ row # post"
      "row_entry fn row = Some (k, v)" "\<forall>x \<in> set post. \<forall>v'. row_entry fn x \<noteq> Some (k, v')"
      unfolding last_entry_for_def by blast
    have "rows @ [r] = pre @ row # (post @ [r])" using d(1) by simp
    moreover have "\<forall>x \<in> set (post @ [r]). \<forall>v'. row_entry fn x \<noteq> Some (k, v')"
      using d(3) 2(1) by simp
    ultimately show ?thesis using d(2) unfolding last_entry_for_def by blast
  qed
qed

lemma load_rows_last_wins:
  assumes "\<forall>row \<in> set rows. row \<noteq> [] \<longrightarrow> supplies fn row"
  shows "\<exists>m. load_rows fn rows pd = Inr m
           \<and> (\<forall>k v. map_of m k = Some v \<longleftrightarrow>
                 last_entry_for fn rows k v
                 \<or> ((\<forall>r \<in> set rows. \<forall>v'. row_entry fn r \<noteq> Some (k, v')) \<and> map_of pd k = Some v))"
  using assms
proof (induction rows rule: rev_induct)
  case Nil
  show ?case by (simp add: last_entry_for_def)
next
  case (snoc r rows)
  then obtain m where m: "load_rows fn rows pd = Inr m"
    and mc: "\<And>k v. map_of m k = Some v \<longleftrightarrow>
                 last_entry_for fn rows k v
                 \<or> ((\<forall>x \<in> set rows. \<forall>v'. row_entry fn x \<noteq> Some (k, v')) \<and> map_of pd k = Some v)"
    by auto
  from snoc.prems have r: "r \<noteq> [] \<longrightarrow> supplies fn r" by simp
  let ?m' = "case row_entry fn r of None \<Rightarrow> m | Some (k, v) \<Rightarrow> AList.update k v m"
  have l: "load_rows fn (rows @ [r]) pd = Inr ?m'"
    using m load_rows_step [OF r, of "[]" m] by (simp add: load_rows_append)
  have "\<forall>k v. map_of ?m' k = Some v \<longleftrightarrow>
                 last_entry_for fn (rows @ [r]) k v
                 \<or> ((\<forall>x \<in> set (rows @ [r]). \<forall>v'. row_entry fn x \<noteq> Some (k, v'))
                     \<and> map_of pd k = Some v)"
  proof (intro allI)
    fix k v
    show "map_of ?m' k = Some v \<longleftrightarrow>
                 last_entry_for fn (rows @ [r]) k v
                 \<or> ((\<forall>x \<in> set (rows @ [r]). \<forall>v'. row_entry fn x \<noteq> Some (k, v'))
                     \<and> map_of pd k = Some v)"
    proof (cases "row_entry fn r")
      case None
      then show ?thesis using mc [of k v] by (auto simp: last_entry_for_snoc)
    next
      case (Some kv)
      obtain k0 v0 where kv: "kv = (k0, v0)" by (cases kv)
      show ?thesis
      proof (cases "k = k0")
        case True
        with Some kv show ?thesis by (auto simp: last_entry_for_snoc update_conv')
      next
        case False
        with Some kv show ?thesis using mc [of k v]
          by (auto simp: last_entry_for_snoc update_conv')
      qed
    qed
  qed
  with l show ?case by blast
qed

lemma load_rows_nonempty:
  assumes "\<forall>row \<in> set rows. row \<noteq> [] \<longrightarrow> supplies fn row"
    and "load_rows fn rows pd = Inr m"
    and "pd \<noteq> [] \<or> (\<exists>row \<in> set rows. row_entry fn row \<noteq> None)"
  shows "m \<noteq> []"
  using assms
proof (induction rows arbitrary: pd)
  case Nil
  then show ?case by simp
next
  case (Cons row rows)
  from Cons.prems(1) have r: "row \<noteq> [] \<longrightarrow> supplies fn row" by simp
  let ?pd = "case row_entry fn row of None \<Rightarrow> pd | Some (k, v) \<Rightarrow> AList.update k v pd"
  from Cons.prems(2) have l: "load_rows fn rows ?pd = Inr m"
    using load_rows_step [OF r, of rows pd] by simp
  have upd: "\<And>k v. AList.update k v pd \<noteq> []" by (metis AList.update_conv' map_of.simps(1) map_upd_nonempty)
  have "?pd \<noteq> [] \<or> (\<exists>row \<in> set rows. row_entry fn row \<noteq> None)"
    using Cons.prems(3) upd by (cases "row_entry fn row") auto
  with Cons.IH [OF _ l] Cons.prems(1) show ?case by simp
qed

lemma load_rows_unusable:
  assumes "\<forall>row \<in> set rows. row \<noteq> [] \<longrightarrow> supplies fn row"
    and "\<forall>row \<in> set rows. row_entry fn row = None"
  shows "load_rows fn rows pd = Inr pd"
  using assms
proof (induction rows)
  case Nil
  show ?case by simp
next
  case (Cons row rows)
  from Cons.prems(1) have r: "row \<noteq> [] \<longrightarrow> supplies fn row" by simp
  from Cons.prems(2) have "row_entry fn row = None" by simp
  then have "load_rows fn (row # rows) pd = load_rows fn rows pd"
    using load_rows_step [OF r, of rows pd] by simp
  with Cons show ?case by simp
qed

section \<open>The inserted line\<close>

lemma find_indentation_space: "\<forall>c \<in> set (find_indentation ls js). isspace c"
proof (induction js)
  case Nil
  show ?case by (simp add: isspace_def)
next
  case (Cons j js)
  have "\<forall>c \<in> set (takeWhile isspace (ls ! j)). isspace c" by (auto dest: set_takeWhileD)
  moreover have "\<forall>c \<in> set ''    ''. isspace c" by (simp add: isspace_def)
  ultimately show ?case using Cons by auto
qed

lemma indentation_at_space: "\<forall>c \<in> set (indentation_at ls i). isspace c"
  unfolding indentation_at_def by (rule find_indentation_space)

lemma biso_team_line_is_biso:
  assumes "\<forall>c \<in> set ind. isspace c"
  shows "is_biso_team_line (biso_team_line ind fe)"
proof -
  have "dropWhile isspace (biso_team_line ind fe)
          = dropWhile isspace (''biso_team                   = '' @ [DQ] @ fe @ [DQ, LF])"
    unfolding biso_team_line_def using assms by (intro dropWhile_append2) auto
  also have "\<dots> = ''biso_team                   = '' @ [DQ] @ fe @ [DQ, LF]"
    by (simp add: isspace_def)
  finally have d: "dropWhile isspace (biso_team_line ind fe)
          = ''biso_team'' @ ''                   = '' @ [DQ] @ fe @ [DQ, LF]" by simp
  have "dropWhile isspace (''                   = '' @ [DQ] @ fe @ [DQ, LF])
          = ''= '' @ [DQ] @ fe @ [DQ, LF]"
    by (simp add: isspace_def)
  then show ?thesis unfolding is_biso_team_line_def d by (simp add: Let_def)
qed

lemma count_biso_team_emit:
  assumes "n \<le> length ls"
  shows "count_biso_team (concat (map (emit ls e) [0..<n]))
           = count_biso_team (take n ls) + length (filter (closing ls) [0..<n])"
  using assms
proof (induction n)
  case 0
  show ?case by (simp add: count_biso_team_def)
next
  case (Suc n)
  then have n: "n < length ls" by simp
  have ins: "is_biso_team_line (biso_team_line (indentation_at ls n) (format_email_for_label e))"
    using indentation_at_space by (rule biso_team_line_is_biso)
  have "count_biso_team (emit ls e n)
          = count_biso_team [ls ! n] + (if closing ls n then 1 else 0)"
    using ins by (simp add: emit_def count_biso_team_def)
  moreover have "take (Suc n) ls = take n ls @ [ls ! n]"
    using n by (simp add: take_Suc_conv_app_nth)
  ultimately show ?case using Suc by (simp add: count_biso_team_def)
qed

lemma lines_kept: "n \<le> length ls \<Longrightarrow> set (take n ls) \<subseteq> set (concat (map (emit ls e) [0..<n]))"
proof (induction n)
  case 0
  show ?case by simp
next
  case (Suc n)
  then have "take (Suc n) ls = take n ls @ [ls ! n]" by (simp add: take_Suc_conv_app_nth)
  moreover have "ls ! n \<in> set (emit ls e n)" by (simp add: emit_def)
  ultimately show ?case using Suc by auto
qed

section \<open>Line endings\<close>












section \<open>Claims\<close>

text \<open>
  C8, as the spec states it: the formatter replaces the literal \<^verbatim>\<open>@teco.com.ar\<close> as a suffix, and
  an identifier in which that suffix is not present is returned unchanged. It fails on an
  identifier that has the literal in the middle and does not end with it: the formatter
  changes it.
\<close>

theorem format_not_only_suffix_counterexample:
  "\<not> suffix ''@teco.com.ar'' ''x@teco.com.ar.z''
   \<and> format_email_for_label ''x@teco.com.ar.z'' = ''x-teco_com_ar.z''
   \<and> format_email_for_label ''x@teco.com.ar.z'' \<noteq> ''x@teco.com.ar.z''"
  by code_simp

text \<open>
  C8, amended: the formatter is a pure function on strings that replaces every occurrence of
  the literal \<^verbatim>\<open>@teco.com.ar\<close>, wherever it stands, by the literal \<^verbatim>\<open>-teco_com_ar\<close>.
  \<^verbatim>\<open>format("a@teco.com.ar")\<close> is \<^verbatim>\<open>"a-teco_com_ar"\<close> and \<^verbatim>\<open>format("a@other.com")\<close> is
  \<^verbatim>\<open>"a@other.com"\<close>; an identifier is returned unchanged exactly when the literal occurs nowhere
  in it; the first occurrence is replaced and what follows it is formatted in the same way;
  in particular a trailing occurrence is replaced.
\<close>

theorem format_email_for_label_spec:
  "format_email_for_label ''a@teco.com.ar'' = ''a-teco_com_ar''
   \<and> format_email_for_label ''a@other.com'' = ''a@other.com''
   \<and> (\<forall>s. (\<nexists>p q. s = p @ ''@teco.com.ar'' @ q) \<longrightarrow> format_email_for_label s = s)
   \<and> (\<forall>s. (\<exists>p q. s = p @ ''@teco.com.ar'' @ q) \<longrightarrow> format_email_for_label s \<noteq> s)
   \<and> (\<forall>p q. (\<nexists>u v. p = u @ ''@teco.com.ar'' @ v) \<longrightarrow>
         format_email_for_label (p @ ''@teco.com.ar'' @ q)
           = p @ ''-teco_com_ar'' @ format_email_for_label q)
   \<and> (\<forall>x. format_email_for_label (x @ ''@teco.com.ar'')
           = format_email_for_label x @ ''-teco_com_ar'')"
proof -
  have a: "format_email_for_label ''a@teco.com.ar'' = ''a-teco_com_ar''"
    by (simp add: format_email_for_label_def)
  have b: "format_email_for_label ''a@other.com'' = ''a@other.com''"
    by (simp add: format_email_for_label_def)
  have c: "\<forall>s. (\<nexists>p q. s = p @ ''@teco.com.ar'' @ q) \<longrightarrow> format_email_for_label s = s"
  proof (intro allI impI)
    fix s :: string
    assume "\<nexists>p q. s = p @ ''@teco.com.ar'' @ q"
    then have "\<not> str_in ''@teco.com.ar'' s" by (simp only: str_in_iff not_False_eq_True)
    then show "format_email_for_label s = s"
      unfolding format_email_for_label_def by (rule str_replace_absent)
  qed
  have c': "\<forall>s. (\<exists>p q. s = p @ ''@teco.com.ar'' @ q) \<longrightarrow> format_email_for_label s \<noteq> s"
  proof (intro allI impI)
    fix s :: string
    assume "\<exists>p q. s = p @ ''@teco.com.ar'' @ q"
    then have "str_in ''@teco.com.ar'' s" by (simp only: str_in_iff)
    then show "format_email_for_label s \<noteq> s" by (rule format_changes)
  qed
  have e: "\<forall>p q. (\<nexists>u v. p = u @ ''@teco.com.ar'' @ v) \<longrightarrow>
         format_email_for_label (p @ ''@teco.com.ar'' @ q)
           = p @ ''-teco_com_ar'' @ format_email_for_label q"
  proof (intro allI impI)
    fix p q :: string
    assume "\<nexists>u v. p = u @ ''@teco.com.ar'' @ v"
    then have "\<not> str_in ''@teco.com.ar'' p" by (simp only: str_in_iff not_False_eq_True)
    then show "format_email_for_label (p @ ''@teco.com.ar'' @ q)
           = p @ ''-teco_com_ar'' @ format_email_for_label q" by (rule format_first)
  qed
  have d: "\<forall>x. format_email_for_label (x @ ''@teco.com.ar'')
           = format_email_for_label x @ ''-teco_com_ar''"
    by (intro allI format_suffix)
  from a b c c' e d show ?thesis by (intro conjI)
qed

theorem format_email_for_label_spec_witness:
  "(\<nexists>p q. ''b@x.org'' = p @ ''@teco.com.ar'' @ q)
   \<and> format_email_for_label ''b@x.org'' = ''b@x.org''
   \<and> (\<nexists>u v. ''x'' = u @ ''@teco.com.ar'' @ v)
   \<and> format_email_for_label (''x'' @ ''@teco.com.ar'' @ ''.z'') = ''x-teco_com_ar.z''
   \<and> format_email_for_label (''user'' @ ''@teco.com.ar'') = ''user-teco_com_ar''"
proof -
  have n: "\<not> str_in ''@teco.com.ar'' ''b@x.org''" by simp
  then have h: "\<nexists>p q. ''b@x.org'' = p @ ''@teco.com.ar'' @ q"
    by (simp only: str_in_iff not_False_eq_True)
  have "\<not> str_in ''@teco.com.ar'' ''x''" by simp
  then have hx: "\<nexists>u v. ''x'' = u @ ''@teco.com.ar'' @ v"
    by (simp only: str_in_iff not_False_eq_True)
  have f: "format_email_for_label ''user'' = ''user''"
    by (simp add: format_email_for_label_def)
  have fz: "format_email_for_label ''.z'' = ''.z''"
    by (simp add: format_email_for_label_def)
  have g: "format_email_for_label ''b@x.org'' = ''b@x.org''"
    using format_email_for_label_spec h by blast
  have m: "format_email_for_label (''x'' @ ''@teco.com.ar'' @ ''.z'')
             = ''x'' @ ''-teco_com_ar'' @ format_email_for_label ''.z''"
    using format_email_for_label_spec hx by blast
  have k: "format_email_for_label (''user'' @ ''@teco.com.ar'')
             = format_email_for_label ''user'' @ ''-teco_com_ar''"
    using format_email_for_label_spec by blast
  from h g hx m fz k f show ?thesis by simp
qed

text \<open>
  C6: for every input file in which no line contains \<^verbatim>\<open>labels = {\<close>, the editor reports that the
  block was not found and writes nothing: the file's content afterwards is the content before,
  character for character.
\<close>

theorem no_labels_block_untouched:
  assumes "\<forall>l \<in> set (readlines (read_text content)). \<not> str_in ''labels = {'' l"
  shows "update_terragrunt_file linesep (Some content) project_name email
           = (Some content, BlockNotFound)"
proof -
  from assms have "\<not> labels_block_found (scan_lines (readlines (read_text content)) email)"
    by (simp add: scan_lines_eq opener_def)
  then show ?thesis by (simp add: update_terragrunt_file_def)
qed

theorem no_labels_block_untouched_witness:
  \<open>\<not> (\<exists>l \<in> set (readlines (read_text ''name = "p"\<newline>inputs = {\<newline>}\<newline>'')). str_in ''labels = {'' l)
   \<and> update_terragrunt_file [CR, LF] (Some ''name = "p"\<newline>inputs = {\<newline>}\<newline>'') ''p'' ''e''
       = (Some ''name = "p"\<newline>inputs = {\<newline>}\<newline>'', BlockNotFound)\<close>
proof -
  have h: \<open>\<forall>l \<in> set (readlines (read_text ''name = "p"\<newline>inputs = {\<newline>}\<newline>'')). \<not> str_in ''labels = {'' l\<close>
    by code_simp
  from no_labels_block_untouched [OF h] h show ?thesis by simp
qed

text \<open>
  C2, as the spec states it: in a file with more than one line containing \<^verbatim>\<open>labels = {\<close>, only the
  first block receives the new line. It fails on a file with two blocks: both receive it.
\<close>

theorem second_block_edited_counterexample:
  \<open>fst (update_terragrunt_file [LF] (Some two_blocks) ''p'' ''e'')
     = Some ''labels = {\<newline>    biso_team                   = "e"\<newline>}\<newline>labels = {\<newline>    biso_team                   = "e"\<newline>}\<newline>''
   \<and> fst (update_terragrunt_file [LF] (Some two_blocks) ''p'' ''e'')
     \<noteq> Some ''labels = {\<newline>    biso_team                   = "e"\<newline>}\<newline>labels = {\<newline>}\<newline>''\<close>
  by code_simp

text \<open>
  C2, amended: every line containing \<^verbatim>\<open>labels = {\<close> sets the inside-block flag again, so the
  editor inserts a \<^verbatim>\<open>biso_team\<close> line directly before every closing line, that is before every
  line that is \<^verbatim>\<open>}\<close> when stripped and has an opener before it with no such line in between;
  all other lines are kept in order. A file with two labels blocks receives two lines.
\<close>

theorem editor_inserts_at_every_closing:
  "new_lines (scan_lines ls e)
     = concat (map (\<lambda>i. if closing ls i
                         then [biso_team_line (indentation_at ls i) (format_email_for_label e), ls ! i]
                         else [ls ! i]) [0..<length ls])"
proof -
  have "emit ls e = (\<lambda>i. if closing ls i
                         then [biso_team_line (indentation_at ls i) (format_email_for_label e), ls ! i]
                         else [ls ! i])"
    by (rule ext) (simp add: emit_def)
  then show ?thesis by (simp add: scan_lines_eq)
qed

theorem editor_inserts_at_every_closing_witness:
  \<open>closing (readlines two_blocks) 1 \<and> closing (readlines two_blocks) 3
   \<and> new_lines (scan_lines (readlines two_blocks) ''e'')
     = [''labels = {\<newline>'', ''    biso_team                   = "e"\<newline>'', ''}\<newline>'',
        ''labels = {\<newline>'', ''    biso_team                   = "e"\<newline>'', ''}\<newline>'']\<close>
proof -
  have ls: \<open>readlines two_blocks = [''labels = {\<newline>'', ''}\<newline>'', ''labels = {\<newline>'', ''}\<newline>'']\<close>
    by code_simp
  have a: "armed (readlines two_blocks) 1" "armed (readlines two_blocks) 3"
    by code_simp+
  have c: "closer ((readlines two_blocks) ! 1)" "closer ((readlines two_blocks) ! 3)"
    by code_simp+
  have c1: "closing (readlines two_blocks) 1" "closing (readlines two_blocks) 3"
    using a c by (simp_all only: closing_armed)
  have n: "\<not> closing (readlines two_blocks) 0" "\<not> closing (readlines two_blocks) 2"
    unfolding closing_armed by code_simp+
  have i: "indentation_at (readlines two_blocks) 1 = ''    ''"
     "indentation_at (readlines two_blocks) 3 = ''    ''" by code_simp+
  have u: "[0..<length (readlines two_blocks)] = [0, 1, 2, 3]" unfolding ls by code_simp
  have b: \<open>biso_team_line ''    '' (format_email_for_label ''e'') = ''    biso_team                   = "e"\<newline>''\<close>
    by code_simp
  have "new_lines (scan_lines (readlines two_blocks) ''e'')
     = [readlines two_blocks ! 0, biso_team_line ''    '' (format_email_for_label ''e''), readlines two_blocks ! 1,
        readlines two_blocks ! 2, biso_team_line ''    '' (format_email_for_label ''e''), readlines two_blocks ! 3]"
    unfolding editor_inserts_at_every_closing [of "readlines two_blocks" "''e''"] u
    using c1 n i by simp
  then show ?thesis using c1 unfolding b unfolding ls by simp
qed

text \<open>
  C3, as the spec states it: only the line directly before the closing line is consulted, and
  the indentation is 4 spaces whenever that line is not of the form \<^verbatim>\<open>key = "string"\<close>. It fails
  where that line is a comment and the line above it is a label indented by 2 spaces: the new
  line is indented by 2 spaces.
\<close>

theorem indentation_preceding_line_only_counterexample:
  \<open>\<not> last_label_pattern (comment_before_closer ! 2)
   \<and> indentation_at comment_before_closer 3 = ''  ''
   \<and> indentation_at comment_before_closer 3 \<noteq> ''    ''
   \<and> new_lines (scan_lines comment_before_closer ''e'')
       = [''labels = {\<newline>'', ''  env = "prod"\<newline>'', ''# end\<newline>'',
          ''  biso_team                   = "e"\<newline>'', ''}\<newline>'']\<close>
  by code_simp

text \<open>
  C3, amended: when a closing line at index \<open>i\<close> is handled inside the block, the new line is
  put directly before it, and its indentation comes from a search upwards over the lines
  \<open>i - 1\<close> down to \<open>1\<close>, that is from the line before the closing line to the second line of
  the file (the first line is never consulted): the nearest line of the form
  \<^verbatim>\<open>key = "string"\<close> in that range gives its leading whitespace, or 4 spaces when it has none;
  when no line in that range has the form, the indentation is 4 spaces.
\<close>

theorem indentation_from_nearest_label_line:
  assumes "in_labels_block st" and "strip (ls ! i) = ''}''"
  shows "\<exists>ind. new_lines (scan_line ls e i st)
                 = new_lines st @ [biso_team_line ind (format_email_for_label e), ls ! i]
           \<and> ((\<forall>j. 1 \<le> j \<and> j < i \<longrightarrow> \<not> last_label_pattern (ls ! j)) \<longrightarrow> ind = ''    '')
           \<and> (\<forall>j. 1 \<le> j \<and> j < i \<and> last_label_pattern (ls ! j)
                    \<and> (\<forall>k. j < k \<and> k < i \<longrightarrow> \<not> last_label_pattern (ls ! k))
                  \<longrightarrow> ind = (if takeWhile isspace (ls ! j) \<noteq> []
                             then takeWhile isspace (ls ! j) else ''    ''))"
proof -
  from assms(2) have "\<not> str_in ''labels = {'' (ls ! i)"
    using closer_not_opener [of "ls ! i"] by (simp add: closer_def opener_def)
  with assms have "new_lines (scan_line ls e i st)
      = new_lines st @ [biso_team_line (indentation_at ls i) (format_email_for_label e), ls ! i]"
    by (simp add: scan_line_def insert_before_last_snoc)
  moreover have "(\<forall>j. 1 \<le> j \<and> j < i \<longrightarrow> \<not> last_label_pattern (ls ! j))
                   \<longrightarrow> indentation_at ls i = ''    ''"
    using indentation_at_default by blast
  moreover have "\<forall>j. 1 \<le> j \<and> j < i \<and> last_label_pattern (ls ! j)
                    \<and> (\<forall>k. j < k \<and> k < i \<longrightarrow> \<not> last_label_pattern (ls ! k))
                  \<longrightarrow> indentation_at ls i = (if takeWhile isspace (ls ! j) \<noteq> []
                             then takeWhile isspace (ls ! j) else ''    '')"
    using indentation_at_nearest by blast
  ultimately show ?thesis by blast
qed

theorem indentation_from_nearest_label_line_witness:
  \<open>in_labels_block \<lparr>new_lines = take 3 comment_before_closer, in_labels_block = True, labels_block_found = True\<rparr>
   \<and> strip (comment_before_closer ! 3) = ''}''
   \<and> 1 \<le> (1::nat) \<and> (1::nat) < 3 \<and> last_label_pattern (comment_before_closer ! 1)
   \<and> \<not> last_label_pattern (comment_before_closer ! 2)
   \<and> new_lines (scan_line comment_before_closer ''e'' 3
        \<lparr>new_lines = take 3 comment_before_closer, in_labels_block = True, labels_block_found = True\<rparr>)
      = [''labels = {\<newline>'', ''  env = "prod"\<newline>'', ''# end\<newline>'',
          ''  biso_team                   = "e"\<newline>'', ''}\<newline>'']
   \<and> strip (label_on_first_line ! 2) = ''}''
   \<and> last_label_pattern (label_on_first_line ! 0)
   \<and> \<not> last_label_pattern (label_on_first_line ! 1)
   \<and> new_lines (scan_line label_on_first_line ''e'' 2
        \<lparr>new_lines = take 2 label_on_first_line, in_labels_block = True, labels_block_found = True\<rparr>)
      = [''  a = "b"\<newline>'', ''labels = {\<newline>'',
          ''    biso_team                   = "e"\<newline>'', ''}\<newline>'']\<close>
proof -
  let ?st = "\<lparr>new_lines = take 3 comment_before_closer, in_labels_block = True, labels_block_found = True\<rparr>"
  let ?first = "\<lparr>new_lines = take 2 label_on_first_line, in_labels_block = True, labels_block_found = True\<rparr>"
  have g1: "in_labels_block ?first" by simp
  have g2: "strip (label_on_first_line ! 2) = ''}''" by code_simp
  have g3: "last_label_pattern (label_on_first_line ! 0)" by code_simp
  have g4: "\<not> last_label_pattern (label_on_first_line ! 1)" by code_simp
  have g5: "\<forall>j. 1 \<le> j \<and> j < 2 \<longrightarrow> \<not> last_label_pattern (label_on_first_line ! j)"
  proof (intro allI impI)
    fix j :: nat assume "1 \<le> j \<and> j < 2"
    then have "j = 1" by simp
    with g4 show "\<not> last_label_pattern (label_on_first_line ! j)" by simp
  qed
  from indentation_from_nearest_label_line [OF g1 g2, of "''e''"]
  obtain ind0 where ind0: "new_lines (scan_line label_on_first_line ''e'' 2 ?first)
                 = new_lines ?first @ [biso_team_line ind0 (format_email_for_label ''e''), label_on_first_line ! 2]"
     and dflt: "(\<forall>j. 1 \<le> j \<and> j < 2 \<longrightarrow> \<not> last_label_pattern (label_on_first_line ! j))
                  \<longrightarrow> ind0 = ''    ''"
    by blast
  from dflt g5 have i0: "ind0 = ''    ''" by blast
  have r0: \<open>take 2 label_on_first_line @ [biso_team_line ''    '' (format_email_for_label ''e''), label_on_first_line ! 2]
      = [''  a = "b"\<newline>'', ''labels = {\<newline>'',
          ''    biso_team                   = "e"\<newline>'', ''}\<newline>'']\<close> by code_simp
  from ind0 i0 r0 have fin0: \<open>new_lines (scan_line label_on_first_line ''e'' 2 ?first)
      = [''  a = "b"\<newline>'', ''labels = {\<newline>'',
          ''    biso_team                   = "e"\<newline>'', ''}\<newline>'']\<close> by simp
  have h1: "in_labels_block ?st" by simp
  have h2: "strip (comment_before_closer ! 3) = ''}''" by code_simp
  have h3: "last_label_pattern (comment_before_closer ! 1)" by code_simp
  have n2: "\<not> last_label_pattern (comment_before_closer ! 2)" by code_simp
  have h4: "\<forall>k. 1 < k \<and> k < 3 \<longrightarrow> \<not> last_label_pattern (comment_before_closer ! k)"
  proof (intro allI impI)
    fix k :: nat assume "1 < k \<and> k < 3"
    then have "k = 2" by simp
    with n2 show "\<not> last_label_pattern (comment_before_closer ! k)" by simp
  qed
  have w: "(if takeWhile isspace (comment_before_closer ! 1) \<noteq> []
            then takeWhile isspace (comment_before_closer ! 1) else ''    '') = ''  ''" by code_simp
  from indentation_from_nearest_label_line [OF h1 h2, of "''e''"]
  obtain ind where ind: "new_lines (scan_line comment_before_closer ''e'' 3 ?st)
                 = new_lines ?st @ [biso_team_line ind (format_email_for_label ''e''), comment_before_closer ! 3]"
     and nearest: "\<forall>j. 1 \<le> j \<and> j < 3 \<and> last_label_pattern (comment_before_closer ! j)
                    \<and> (\<forall>k. j < k \<and> k < 3 \<longrightarrow> \<not> last_label_pattern (comment_before_closer ! k))
                  \<longrightarrow> ind = (if takeWhile isspace (comment_before_closer ! j) \<noteq> []
                             then takeWhile isspace (comment_before_closer ! j) else ''    '')"
    by blast
  from nearest h3 h4 have "ind = (if takeWhile isspace (comment_before_closer ! 1) \<noteq> []
                             then takeWhile isspace (comment_before_closer ! 1) else ''    '')"
    by auto
  with w have i2: "ind = ''  ''" by simp
  have r: \<open>take 3 comment_before_closer @ [biso_team_line ''  '' (format_email_for_label ''e''), comment_before_closer ! 3]
      = [''labels = {\<newline>'', ''  env = "prod"\<newline>'', ''# end\<newline>'',
          ''  biso_team                   = "e"\<newline>'', ''}\<newline>'']\<close> by code_simp
  from ind i2 r have fin: \<open>new_lines (scan_line comment_before_closer ''e'' 3 ?st)
      = [''labels = {\<newline>'', ''  env = "prod"\<newline>'', ''# end\<newline>'',
          ''  biso_team                   = "e"\<newline>'', ''}\<newline>'']\<close> by simp
  from h1 h2 h3 n2 fin g2 g3 g4 fin0 show ?thesis by simp
qed

text \<open>
  C7: for every lookup file whose header lacks the project-name column or the contact column,
  \<^verbatim>\<open>load_project_data\<close> takes the schema-error path and returns no mapping, and the script does
  not call \<^verbatim>\<open>main\<close>: the tree is as it was and nothing is reported.
\<close>

theorem missing_column_schema_error:
  assumes "PROJECT_NAME_COL \<notin> set fieldnames \<or> EMAIL_COL \<notin> set fieldnames"
  shows "load_project_data (Rows (fieldnames # rows)) = Inl SchemaError
         \<and> script linesep (Rows (fieldnames # rows)) iac_live_path
             = \<lparr>walk_entered = False, tree_after = iac_live_path, report = None\<rparr>"
proof -
  from assms have l: "load_project_data (Rows (fieldnames # rows)) = Inl SchemaError"
    by (simp add: load_project_data_def)
  then show ?thesis by (simp add: script_def)
qed

theorem missing_column_schema_error_witness:
  \<open>EMAIL_COL \<notin> set [''PROJECT_NAME'', ''OWNER'']
   \<and> load_project_data (Rows [[''PROJECT_NAME'', ''OWNER''], [''p'', ''e@teco.com.ar'']]) = Inl SchemaError
   \<and> script [LF] (Rows [[''PROJECT_NAME'', ''OWNER''], [''p'', ''e@teco.com.ar'']])
        (Directory [(''live/project/terragrunt.hcl'', Some ''name = "p"\<newline>labels = {\<newline>}\<newline>'')])
      = \<lparr>walk_entered = False,
         tree_after = Directory [(''live/project/terragrunt.hcl'', Some ''name = "p"\<newline>labels = {\<newline>}\<newline>'')],
         report = None\<rparr>\<close>
proof -
  have e: "EMAIL_COL \<notin> set [''PROJECT_NAME'', ''OWNER'']" by code_simp
  then have h: "PROJECT_NAME_COL \<notin> set [''PROJECT_NAME'', ''OWNER'']
                \<or> EMAIL_COL \<notin> set [''PROJECT_NAME'', ''OWNER'']" by (rule disjI2)
  from missing_column_schema_error [OF h] e show ?thesis by blast
qed

text \<open>
  C1: the summary's count of modified files is meant to be the number of files that were
  rewritten. For a tree with one file whose project name is in the mapping and which has no
  labels block, the editor reports that the block was not found and leaves the file as it was,
  and the summary still counts one modified file.
\<close>

theorem unmodified_file_counted_as_modified:
  \<open>update_terragrunt_file [LF] (Some ''name = "p"\<newline>inputs = {\<newline>}\<newline>'') ''p'' ''e@teco.com.ar''
     = (Some ''name = "p"\<newline>inputs = {\<newline>}\<newline>'', BlockNotFound)
   \<and> main [LF] (Directory [(''live/project/terragrunt.hcl'', Some ''name = "p"\<newline>inputs = {\<newline>}\<newline>'')])
        [(''p'', ''e@teco.com.ar'')]
     = (Directory [(''live/project/terragrunt.hcl'', Some ''name = "p"\<newline>inputs = {\<newline>}\<newline>'')],
        Some \<lparr>files_processed = 1, files_modified = 1\<rparr>)\<close>
  by code_simp

text \<open>
  C4, as the spec states it: every lookup file whose header has both columns and which has at
  least one row with a non-empty name and contact is loaded into a mapping. It fails on a file
  that has, besides such a row, a row too short to reach the contact column: the value is
  \<^verbatim>\<open>None\<close>, \<^verbatim>\<open>.strip()\<close> raises, and the handler returns no mapping.
\<close>

theorem short_row_aborts_load_counterexample:
  \<open>PROJECT_NAME_COL \<in> set [''PROJECT_NAME'', ''BISO_TEAM'']
   \<and> EMAIL_COL \<in> set [''PROJECT_NAME'', ''BISO_TEAM'']
   \<and> row_entry [''PROJECT_NAME'', ''BISO_TEAM''] [''p1'', ''a@teco.com.ar'']
       = Some (''p1'', ''a@teco.com.ar'')
   \<and> load_project_data
         (Rows [[''PROJECT_NAME'', ''BISO_TEAM''], [''p1'', ''a@teco.com.ar''], [''p2'']])
       = Inl ReadError\<close>
  by code_simp

text \<open>
  C4, amended: for every lookup file whose header has both columns, in which every row that is
  not blank supplies both columns, and which has at least one row with a non-empty trimmed name
  and contact, \<^verbatim>\<open>load_project_data\<close> returns a non-empty mapping, and the mapping sends \<open>k\<close> to
  \<open>v\<close> exactly when \<open>(k, v)\<close> is the pair of trimmed, non-empty values of some row after which
  no row has the trimmed name \<open>k\<close> with a non-empty contact: the last such row is kept.
\<close>

theorem load_returns_last_entries:
  assumes "PROJECT_NAME_COL \<in> set fieldnames" and "EMAIL_COL \<in> set fieldnames"
    and "\<forall>row \<in> set rows. row \<noteq> [] \<longrightarrow> supplies fieldnames row"
    and "\<exists>row \<in> set rows. row_entry fieldnames row \<noteq> None"
  shows "\<exists>m. load_project_data (Rows (fieldnames # rows)) = Inr m \<and> m \<noteq> []
           \<and> (\<forall>k v. map_of m k = Some v \<longleftrightarrow>
                 (\<exists>pre row post. rows = pre @ row # post
                    \<and> row_entry fieldnames row = Some (k, v)
                    \<and> (\<forall>r \<in> set post. \<forall>v'. row_entry fieldnames r \<noteq> Some (k, v'))))"
proof -
  from load_rows_last_wins [OF assms(3), of "[]"]
  obtain m where m: "load_rows fieldnames rows [] = Inr m"
    and mc: "\<forall>k v. map_of m k = Some v \<longleftrightarrow> last_entry_for fieldnames rows k v"
    by auto
  from assms(1,2) m have l: "load_project_data (Rows (fieldnames # rows)) = Inr m"
    by (simp add: load_project_data_def)
  from assms(4) have ne: "m \<noteq> []" using load_rows_nonempty [OF assms(3) m] by blast
  from l ne mc show ?thesis unfolding last_entry_for_def by blast
qed

theorem load_returns_last_entries_witness:
  \<open>PROJECT_NAME_COL \<in> set [''PROJECT_NAME'', ''BISO_TEAM'']
   \<and> EMAIL_COL \<in> set [''PROJECT_NAME'', ''BISO_TEAM'']
   \<and> list_all (\<lambda>row. row \<noteq> [] \<longrightarrow> supplies [''PROJECT_NAME'', ''BISO_TEAM''] row)
         [[''p1 '', '' a''], [], ['' '', ''x''], [''p1'', ''b'']]
   \<and> (\<exists>row \<in> set [[''p1 '', '' a''], [], ['' '', ''x''], [''p1'', ''b'']].
         row_entry [''PROJECT_NAME'', ''BISO_TEAM''] row \<noteq> None)
   \<and> load_project_data
        (Rows [[''PROJECT_NAME'', ''BISO_TEAM''], [''p1 '', '' a''], [], ['' '', ''x''], [''p1'', ''b'']])
      = Inr [(''p1'', ''b'')]
   \<and> (\<exists>pre row post. [[''p1 '', '' a''], [], ['' '', ''x''], [''p1'', ''b'']] = pre @ row # post
          \<and> row_entry [''PROJECT_NAME'', ''BISO_TEAM''] row = Some (''p1'', ''b'')
          \<and> (\<forall>r \<in> set post. \<forall>v'. row_entry [''PROJECT_NAME'', ''BISO_TEAM''] r \<noteq> Some (''p1'', v')))\<close>
proof -
  let ?fn = "[''PROJECT_NAME'', ''BISO_TEAM'']"
  let ?rows = "[[''p1 '', '' a''], [], ['' '', ''x''], [''p1'', ''b'']]"
  have h1: "PROJECT_NAME_COL \<in> set ?fn" by code_simp
  have h2: "EMAIL_COL \<in> set ?fn" by code_simp
  have h3: "\<forall>row \<in> set ?rows. row \<noteq> [] \<longrightarrow> supplies ?fn row" by code_simp
  have h4: "\<exists>row \<in> set ?rows. row_entry ?fn row \<noteq> None" by code_simp
  have l: "load_project_data (Rows (?fn # ?rows)) = Inr [(''p1'', ''b'')]" by code_simp
  from load_returns_last_entries [OF h1 h2 h3 h4] l
  have "\<forall>k v. map_of [(''p1'', ''b'')] k = Some v \<longleftrightarrow>
                 (\<exists>pre row post. ?rows = pre @ row # post
                    \<and> row_entry ?fn row = Some (k, v)
                    \<and> (\<forall>r \<in> set post. \<forall>v'. row_entry ?fn r \<noteq> Some (k, v')))"
    by auto
  then have "map_of [(''p1'', ''b'')] ''p1'' = Some ''b'' \<longleftrightarrow>
                 (\<exists>pre row post. ?rows = pre @ row # post
                    \<and> row_entry ?fn row = Some (''p1'', ''b'')
                    \<and> (\<forall>r \<in> set post. \<forall>v'. row_entry ?fn r \<noteq> Some (''p1'', v')))"
    by blast
  then have d: "\<exists>pre row post. ?rows = pre @ row # post
                    \<and> row_entry ?fn row = Some (''p1'', ''b'')
                    \<and> (\<forall>r \<in> set post. \<forall>v'. row_entry ?fn r \<noteq> Some (''p1'', v'))"
    by simp
  from h3 have h3': "list_all (\<lambda>row. row \<noteq> [] \<longrightarrow> supplies ?fn row) ?rows"
    by (simp only: list_all_iff)
  from h1 h2 h3' h4 l d show ?thesis by blast
qed

text \<open>
  C10, as the spec states it: with a valid header and every row having an empty trimmed name
  or contact, loading succeeds with an empty mapping. It fails on a file whose only row is one
  blank-padded field: the trimmed name is empty, the contact is \<^verbatim>\<open>None\<close>, and loading ends in
  the handler instead of returning the empty mapping.
\<close>

theorem short_row_fails_instead_of_empty_counterexample:
  \<open>stripped_cell (dict_row [''PROJECT_NAME'', ''BISO_TEAM''] ['' '']) PROJECT_NAME_COL = Inr []
   \<and> load_project_data (Rows [[''PROJECT_NAME'', ''BISO_TEAM''], ['' '']]) = Inl ReadError
   \<and> load_project_data (Rows [[''PROJECT_NAME'', ''BISO_TEAM''], ['' '']]) \<noteq> Inr []\<close>
  by code_simp

text \<open>
  C10, amended: for every lookup file with both columns in the header in which every row that
  is not blank supplies both columns and no row has both a non-empty trimmed name and a
  non-empty trimmed contact (or there is no data row), \<^verbatim>\<open>load_project_data\<close> returns the empty
  mapping; the script takes it as false and does not call \<^verbatim>\<open>main\<close>, as after a failed load:
  the tree is as it was and nothing is reported.
\<close>

theorem no_usable_rows_skips_walk:
  assumes "PROJECT_NAME_COL \<in> set fieldnames" and "EMAIL_COL \<in> set fieldnames"
    and "\<forall>row \<in> set rows. row \<noteq> [] \<longrightarrow> supplies fieldnames row"
    and "\<forall>row \<in> set rows. row_entry fieldnames row = None"
  shows "load_project_data (Rows (fieldnames # rows)) = Inr []
         \<and> script linesep (Rows (fieldnames # rows)) iac_live_path
             = \<lparr>walk_entered = False, tree_after = iac_live_path, report = None\<rparr>
         \<and> script linesep (Rows (fieldnames # rows)) iac_live_path
             = script linesep Unreadable iac_live_path"
proof -
  from assms(1,2) load_rows_unusable [OF assms(3,4), of "[]"]
  have l: "load_project_data (Rows (fieldnames # rows)) = Inr []"
    by (simp add: load_project_data_def)
  have u: "load_project_data Unreadable = Inl ReadError" by (simp add: load_project_data_def)
  from l u show ?thesis by (simp add: script_def)
qed

theorem no_usable_rows_skips_walk_witness:
  \<open>PROJECT_NAME_COL \<in> set [''PROJECT_NAME'', ''BISO_TEAM'']
   \<and> EMAIL_COL \<in> set [''PROJECT_NAME'', ''BISO_TEAM'']
   \<and> list_all (\<lambda>row. row \<noteq> [] \<longrightarrow> supplies [''PROJECT_NAME'', ''BISO_TEAM''] row)
         [[''p1'', ''  ''], [], [[], ''x'']]
   \<and> list_all (\<lambda>row. row_entry [''PROJECT_NAME'', ''BISO_TEAM''] row = None)
         [[''p1'', ''  ''], [], [[], ''x'']]
   \<and> load_project_data (Rows [[''PROJECT_NAME'', ''BISO_TEAM''], [''p1'', ''  ''], [], [[], ''x'']])
       = Inr []
   \<and> script [LF] (Rows [[''PROJECT_NAME'', ''BISO_TEAM''], [''p1'', ''  ''], [], [[], ''x'']])
        (Directory [(''live/project/terragrunt.hcl'', Some ''name = "p1"\<newline>labels = {\<newline>}\<newline>'')])
      = \<lparr>walk_entered = False,
         tree_after = Directory [(''live/project/terragrunt.hcl'', Some ''name = "p1"\<newline>labels = {\<newline>}\<newline>'')],
         report = None\<rparr>\<close>
proof -
  let ?fn = "[''PROJECT_NAME'', ''BISO_TEAM'']"
  let ?rows = "[[''p1'', ''  ''], [], [[], ''x'']]"
  have h1: "PROJECT_NAME_COL \<in> set ?fn" by code_simp
  have h2: "EMAIL_COL \<in> set ?fn" by code_simp
  have h3: "\<forall>row \<in> set ?rows. row \<noteq> [] \<longrightarrow> supplies ?fn row" by code_simp
  have h4: "\<forall>row \<in> set ?rows. row_entry ?fn row = None" by code_simp
  from h3 have h3': "list_all (\<lambda>row. row \<noteq> [] \<longrightarrow> supplies ?fn row) ?rows"
    by (simp only: list_all_iff)
  from h4 have h4': "list_all (\<lambda>row. row_entry ?fn row = None) ?rows"
    by (simp only: list_all_iff)
  from no_usable_rows_skips_walk [OF h1 h2 h3 h4] h1 h2 h3' h4' show ?thesis by blast
qed

text \<open>
  C5: the editor is not idempotent. For every file that already has a \<^verbatim>\<open>biso_team\<close> line
  inside its labels block (after a line with \<^verbatim>\<open>labels = {\<close> and before the line that closes the
  block), the editor rewrites the file, keeps that line as it is and inserts one more: the
  lines written have as many \<^verbatim>\<open>biso_team\<close> lines as the file had, plus one for each closing
  line, so at least two; exactly two for a file with one such line and one labels block.
\<close>

theorem second_run_inserts_second_line:
  assumes "ls = readlines (read_text content)"
    and "a < b" and "b < c" and "c < length ls"
    and "str_in ''labels = {'' (ls ! a)"
    and "is_biso_team_line (ls ! b)"
    and "strip (ls ! c) = ''}''"
    and "\<forall>k. a < k \<and> k < c \<longrightarrow> strip (ls ! k) \<noteq> ''}''"
  shows "update_terragrunt_file linesep (Some content) project_name email
           = (Some (write_text linesep (concat (new_lines (scan_lines ls email)))), Updated)
         \<and> count_biso_team (new_lines (scan_lines ls email))
             = count_biso_team ls + length (filter (closing ls) [0..<length ls])
         \<and> 1 \<le> length (filter (closing ls) [0..<length ls])
         \<and> 2 \<le> count_biso_team (new_lines (scan_lines ls email))
         \<and> ls ! b \<in> set (new_lines (scan_lines ls email))"
proof -
  let ?out = "concat (map (emit ls email) [0..<length ls])"
  from assms(2-5) have "\<exists>l \<in> set ls. opener l"
    unfolding opener_def by (meson less_trans nth_mem)
  then have f: "labels_block_found (scan_lines ls email)"
    and o: "new_lines (scan_lines ls email) = ?out"
    by (simp_all add: scan_lines_eq)
  from f have u: "update_terragrunt_file linesep (Some content) project_name email
           = (Some (write_text linesep (concat (new_lines (scan_lines ls email)))), Updated)"
    unfolding assms(1) by (simp add: update_terragrunt_file_def Let_def)
  have cnt: "count_biso_team ?out
               = count_biso_team ls + length (filter (closing ls) [0..<length ls])"
    using count_biso_team_emit [of "length ls" ls email] by simp
  have "closing ls c"
    unfolding closing_def closer_def opener_def using assms(2,3,5,7,8)
    by (intro conjI exI [of _ a]) auto
  with assms(4) have "c \<in> set (filter (closing ls) [0..<length ls])" by simp
  then have one: "1 \<le> length (filter (closing ls) [0..<length ls])"
    by (metis One_nat_def Suc_leI length_pos_if_in_set)
  from assms(3,4) have b: "b < length ls" by simp
  with assms(6) have "ls ! b \<in> set (filter is_biso_team_line ls)" by simp
  then have "1 \<le> count_biso_team ls"
    unfolding count_biso_team_def by (metis One_nat_def Suc_leI length_pos_if_in_set)
  with cnt one have two: "2 \<le> count_biso_team ?out" by simp
  have "set ls \<subseteq> set ?out" using lines_kept [of "length ls" ls email] by simp
  moreover have "ls ! b \<in> set ls" using b by (rule nth_mem)
  ultimately have "ls ! b \<in> set ?out" by (rule subsetD)
  with u cnt one two show ?thesis unfolding o by blast
qed

theorem second_run_inserts_second_line_witness:
  \<open>(0::nat) < 1 \<and> (1::nat) < 2 \<and> 2 < length (readlines (read_text labelled_once))
   \<and> str_in ''labels = {'' (readlines (read_text labelled_once) ! 0)
   \<and> is_biso_team_line (readlines (read_text labelled_once) ! 1)
   \<and> strip (readlines (read_text labelled_once) ! 2) = ''}''
   \<and> strip (readlines (read_text labelled_once) ! 1) \<noteq> ''}''
   \<and> update_terragrunt_file [LF] (Some labelled_once) ''p'' ''e''
       = (Some ''labels = {\<newline>    biso_team                   = "e"\<newline>    biso_team                   = "e"\<newline>}\<newline>'',
          Updated)
   \<and> count_biso_team (new_lines (scan_lines (readlines (read_text labelled_once)) ''e'')) = 2\<close>
proof -
  let ?ls = "readlines (read_text labelled_once)"
  have h1: "(0::nat) < 1" and h2: "(1::nat) < 2" by simp_all
  have h3: "2 < length ?ls" by code_simp
  have h4: "str_in ''labels = {'' (?ls ! 0)" by code_simp
  have h5: "is_biso_team_line (?ls ! 1)" by code_simp
  have h6: "strip (?ls ! 2) = ''}''" by code_simp
  have n1: "strip (?ls ! 1) \<noteq> ''}''" by code_simp
  have h7: "\<forall>k. 0 < k \<and> k < 2 \<longrightarrow> strip (?ls ! k) \<noteq> ''}''"
  proof (intro allI impI)
    fix k :: nat assume "0 < k \<and> k < 2"
    then have "k = 1" by simp
    with n1 show "strip (?ls ! k) \<noteq> ''}''" by simp
  qed
  have w: \<open>write_text [LF] (concat (new_lines (scan_lines ?ls ''e'')))
     = ''labels = {\<newline>    biso_team                   = "e"\<newline>    biso_team                   = "e"\<newline>}\<newline>''\<close>
    by code_simp
  have c1: "count_biso_team ?ls = 1" by code_simp
  have c2: "length (filter (\<lambda>i. closer (?ls ! i) \<and> armed ?ls i) [0..<length ?ls]) = 1"
    by code_simp
  have "closing ?ls = (\<lambda>i. closer (?ls ! i) \<and> armed ?ls i)"
    by (rule ext) (rule closing_armed)
  with c2 have c3: "length (filter (closing ?ls) [0..<length ?ls]) = 1" by simp
  from second_run_inserts_second_line [OF refl h1 h2 h3 h4 h5 h6 h7, of "[LF]" "''p''" "''e''"]
  have r: "update_terragrunt_file [LF] (Some labelled_once) ''p'' ''e''
           = (Some (write_text [LF] (concat (new_lines (scan_lines ?ls ''e'')))), Updated)
         \<and> count_biso_team (new_lines (scan_lines ?ls ''e''))
             = count_biso_team ?ls + length (filter (closing ?ls) [0..<length ?ls])"
    by simp
  with w c1 c3 have \<open>update_terragrunt_file [LF] (Some labelled_once) ''p'' ''e''
       = (Some ''labels = {\<newline>    biso_team                   = "e"\<newline>    biso_team                   = "e"\<newline>}\<newline>'',
          Updated)
   \<and> count_biso_team (new_lines (scan_lines ?ls ''e'')) = 2\<close> by simp
  with h1 h2 h3 h4 h5 h6 n1 show ?thesis by blast
qed




end
